theory Spec2Isabelle
  imports Complex_Main "HOL-Library.AList" "HOL-Library.Sublist" "HOL-Library.Multiset"
begin

section \<open>Health checker (src/src/healthChecker.js)\<close>

text \<open>
  A health record as the module stores it. \<open>lastChecked\<close> and \<open>lastFailureTime\<close> are a
  \<open>Date\<close> or \<open>null\<close>: a millisecond timestamp or \<open>None\<close>. The module-level object
  \<open>serviceHealth\<close> maps a service URL to its record; a missing key is \<open>None\<close>.
\<close>

record health =
  healthy :: bool
  lastChecked :: "int option"
  consecutiveFailures :: nat
  lastFailureTime :: "int option"

type_synonym serviceHealth = "string \<rightharpoonup> health"

text \<open>\<open>const serviceHealth = {}\<close>: the registry when the module is loaded.\<close>

definition serviceHealth_empty :: serviceHealth where
  "serviceHealth_empty = Map.empty"

text \<open>The object literal that \<open>initHealthChecker\<close>, \<open>updateServiceHealth\<close> and
  \<open>setServiceHealth\<close> all write for a service they have not seen.\<close>

definition newRecord :: health where
  "newRecord = \<lparr>healthy = True, lastChecked = None, consecutiveFailures = 0,
     lastFailureTime = None\<rparr>"

text \<open>\<open>if (!serviceHealth[service]) serviceHealth[service] = {...}\<close> followed by the read
  \<open>serviceHealth[service]\<close>: a record object is always truthy, so only a missing key takes
  the branch.\<close>

definition recordOrNew :: "serviceHealth \<Rightarrow> string \<Rightarrow> health" where
  "recordOrNew sh service = (case sh service of None \<Rightarrow> newRecord | Some h \<Rightarrow> h)"

text \<open>\<open>updateServiceHealth(service, isHealthy)\<close>; \<open>now\<close> is what \<open>new Date()\<close> reads.
  The \<open>console.log\<close> calls have no effect on the registry and are left out.\<close>

definition updateServiceHealth :: "int \<Rightarrow> string \<Rightarrow> bool \<Rightarrow> serviceHealth \<Rightarrow> serviceHealth" where
  "updateServiceHealth now service isHealthy sh =
     (let h0 = recordOrNew sh service;
          h1 = h0\<lparr>lastChecked := Some now\<rparr>;
          h2 = (if isHealthy then
                  (if \<not> healthy h1
                   then h1\<lparr>healthy := True, consecutiveFailures := 0\<rparr>
                   else h1)
                else
                  (let h3 = h1\<lparr>consecutiveFailures := consecutiveFailures h1 + 1,
                                 lastFailureTime := Some now\<rparr>
                   in if consecutiveFailures h3 \<ge> 3 then h3\<lparr>healthy := False\<rparr> else h3))
      in sh(service \<mapsto> h2))"

text \<open>\<open>getHealthyServices(path, allServices)\<close>: the filter keeps a service when
  \<open>health && health.healthy\<close> is truthy; \<open>path\<close> is not used by the body.\<close>

definition getHealthyServices :: "string \<Rightarrow> string list \<Rightarrow> serviceHealth \<Rightarrow> string list" where
  "getHealthyServices path allServices sh =
     filter (\<lambda>service. case sh service of None \<Rightarrow> False | Some h \<Rightarrow> healthy h) allServices"

text \<open>\<open>setServiceHealth(service, healthy)\<close>, the manual override.\<close>

definition setServiceHealth :: "int \<Rightarrow> string \<Rightarrow> bool \<Rightarrow> serviceHealth \<Rightarrow> serviceHealth" where
  "setServiceHealth now service h sh =
     sh(service \<mapsto> (recordOrNew sh service)\<lparr>healthy := h, lastChecked := Some now\<rparr>)"

text \<open>The synchronous part of \<open>initHealthChecker(routes)\<close>: every service of every route
  gets a new record (overwriting an older one). \<open>routes\<close> is the parsed configuration
  object, an ordered list of (path, services) entries. The interval timer it starts
  afterwards only calls \<open>updateServiceHealth\<close> with probe results.\<close>

definition initHealthChecker :: "(string \<times> string list) list \<Rightarrow> serviceHealth \<Rightarrow> serviceHealth" where
  "initHealthChecker routes sh =
     fold (\<lambda>(path, services) sh1. fold (\<lambda>service sh2. sh2(service \<mapsto> newRecord)) services sh1)
       routes sh"

text \<open>A sequence of probe results for one service, applied in order, each at its own
  time: what \<open>performHealthChecks\<close> does to one record over successive rounds.\<close>

fun recordChecks :: "string \<Rightarrow> (int \<times> bool) list \<Rightarrow> serviceHealth \<Rightarrow> serviceHealth" where
  "recordChecks service [] sh = sh"
| "recordChecks service ((now, isHealthy) # rest) sh =
     recordChecks service rest (updateServiceHealth now service isHealthy sh)"


section \<open>Load balancer (src/src/loadBalancer.js)\<close>

text \<open>\<open>const counters = {}\<close>: a round-robin cursor per route path. The cursor is only ever
  0 or the result of \<open>++\<close>, so it is a natural number (the model does not bound it by the
  2^53 of a JavaScript number).\<close>

type_synonym counters = "string \<rightharpoonup> nat"

definition counters_empty :: counters where
  "counters_empty = Map.empty"

definition counterOf :: "counters \<Rightarrow> string \<Rightarrow> nat" where
  "counterOf cs path = (case cs path of None \<Rightarrow> 0 | Some c \<Rightarrow> c)"

text \<open>\<open>getNextTargetRoundRobin(path, services)\<close>. \<open>if (!counters[path]) counters[path] = 0\<close>
  fires for a missing key and for 0 alike, both leaving the cursor at 0. Indexing an empty
  array (\<open>c % 0\<close> is \<open>NaN\<close>) yields \<open>undefined\<close>: \<open>None\<close>.\<close>

definition getNextTargetRoundRobin :: "string \<Rightarrow> string list \<Rightarrow> counters \<Rightarrow> string option \<times> counters" where
  "getNextTargetRoundRobin path services cs =
     (let c = counterOf cs path;
          target = (if services = [] then None else Some (services ! (c mod length services)))
      in (target, cs(path \<mapsto> c + 1)))"

text \<open>\<open>n\<close> selections in a row for one path with the same service list.\<close>

fun selections :: "nat \<Rightarrow> string \<Rightarrow> string list \<Rightarrow> counters \<Rightarrow> string option list \<times> counters" where
  "selections 0 path services cs = ([], cs)"
| "selections (Suc n) path services cs =
     (case getNextTargetRoundRobin path services cs of
        (target, cs1) \<Rightarrow>
          (case selections n path services cs1 of (targets, cs2) \<Rightarrow> (target # targets, cs2)))"

text \<open>\<open>const activeConnections = {}\<close>: per path an object from service to its count. The
  inner object is an association list, because \<open>Object.values\<close> enumerates it. Counts are
  integers: \<open>decrementConnections\<close> does not stop at 0.\<close>

type_synonym activeConnections = "string \<rightharpoonup> (string \<times> int) list"

definition activeConnections_empty :: activeConnections where
  "activeConnections_empty = Map.empty"

text \<open>\<open>Math.min(...values)\<close>; the call with no argument returns \<open>Infinity\<close>, which no stored
  count equals: \<open>None\<close>.\<close>

fun mathMin :: "int list \<Rightarrow> int option" where
  "mathMin [] = None"
| "mathMin (x # xs) = (case mathMin xs of None \<Rightarrow> Some x | Some m \<Rightarrow> Some (min x m))"

text \<open>\<open>xs[i]\<close> for a non-negative integer index: \<open>undefined\<close> past the end.\<close>

definition elementAt :: "'a list \<Rightarrow> nat \<Rightarrow> 'a option" where
  "elementAt xs i = (if i < length xs then Some (xs ! i) else None)"

text \<open>\<open>getNextTargetLeastConnections(path, services)\<close>; \<open>random\<close> is the value of
  \<open>Math.random()\<close>, a number in [0, 1).\<close>

definition getNextTargetLeastConnections ::
  "real \<Rightarrow> string \<Rightarrow> string list \<Rightarrow> activeConnections \<Rightarrow> string option \<times> activeConnections" where
  "getNextTargetLeastConnections random path services ac =
     (let ac1 = (case ac path of
                   None \<Rightarrow> ac(path \<mapsto> fold (\<lambda>s obj. AList.update s 0 obj) services [])
                 | Some obj \<Rightarrow> ac);
          conns = (case ac1 path of None \<Rightarrow> [] | Some obj \<Rightarrow> obj);
          minConnections = mathMin (map snd conns);
          leastLoadedServices =
            filter (\<lambda>s. case map_of conns s of None \<Rightarrow> False | Some n \<Rightarrow> Some n = minConnections)
              services
      in (elementAt leastLoadedServices (nat \<lfloor>random * real (length leastLoadedServices)\<rfloor>), ac1))"

definition incrementConnections :: "string \<Rightarrow> string \<Rightarrow> activeConnections \<Rightarrow> activeConnections" where
  "incrementConnections path target ac =
     (let obj = (case ac path of None \<Rightarrow> [] | Some obj \<Rightarrow> obj);
          n = (case map_of obj target of None \<Rightarrow> 0 | Some n \<Rightarrow> n)
      in ac(path \<mapsto> AList.update target (n + 1) obj))"

definition decrementConnections :: "string \<Rightarrow> string \<Rightarrow> activeConnections \<Rightarrow> activeConnections" where
  "decrementConnections path target ac =
     (case ac path of
        None \<Rightarrow> ac
      | Some obj \<Rightarrow>
          (case map_of obj target of
             None \<Rightarrow> ac
           | Some n \<Rightarrow> ac(path \<mapsto> AList.update target (n - 1) obj)))"

section \<open>Rate limiter (rateLimiter.js)\<close>

text \<open>\<open>const slidingWindows = {}\<close>: per key the array of admitted request times
  (milliseconds, \<open>Date.now()\<close>), oldest first.\<close>

type_synonym slidingWindows = "string \<rightharpoonup> int list"

definition slidingWindows_empty :: slidingWindows where
  "slidingWindows_empty = Map.empty"

text \<open>\<open>if (!slidingWindows[key]) slidingWindows[key] = []\<close> and the read that follows: an
  array is truthy even when empty, so only a missing key takes the branch.\<close>

definition windowOf :: "slidingWindows \<Rightarrow> string \<Rightarrow> int list" where
  "windowOf sw key = (case sw key of None \<Rightarrow> [] | Some w \<Rightarrow> w)"

text \<open>The loop \<open>while (window.length > 0 && window[0] < now - windowMs) window.shift()\<close>,
  with \<open>bound = now - windowMs\<close>. It is written out, identically, in each of the three
  limiters.\<close>

fun shiftOld :: "int \<Rightarrow> int list \<Rightarrow> int list" where
  "shiftOld bound [] = []"
| "shiftOld bound (t # ts) = (if t < bound then shiftOld bound ts else t # ts)"

text \<open>What a limiter does with the request: \<open>next()\<close> after setting the header
  \<open>X-RateLimit-Remaining\<close>, or status 429 with an error message.\<close>

datatype decision = Admitted int | Rejected string

fun admitted :: "decision \<Rightarrow> bool" where
  "admitted (Admitted remaining) = True"
| "admitted (Rejected msg) = False"

text \<open>The middleware returned by \<open>slidingWindowLimiter(limit, windowMs)\<close>, run on a request
  from \<open>ip\<close> at time \<open>now\<close>.\<close>

definition slidingWindowLimiter ::
  "int \<Rightarrow> int \<Rightarrow> string \<Rightarrow> int \<Rightarrow> slidingWindows \<Rightarrow> decision \<times> slidingWindows" where
  "slidingWindowLimiter limit windowMs ip now sw =
     (let window = shiftOld (now - windowMs) (windowOf sw ip)
      in if int (length window) \<ge> limit
         then (Rejected ''Too many requests'', sw(ip \<mapsto> window))
         else (Admitted (limit - int (length (window @ [now]))), sw(ip \<mapsto> window @ [now])))"

text \<open>The middleware returned by \<open>rateLimiter(ipLimit, userLimit, windowMs)\<close>, the one
  index.js installs. \<open>user\<close> is \<open>req.user.userId\<close> when \<open>req.user\<close> is set; the test
  \<open>req.user && req.user.userId\<close> fails for a missing user and for an empty id.\<close>

definition rateLimiter ::
  "int \<Rightarrow> int \<Rightarrow> int \<Rightarrow> string \<Rightarrow> string option \<Rightarrow> int \<Rightarrow> slidingWindows \<Rightarrow> decision \<times> slidingWindows" where
  "rateLimiter ipLimit userLimit windowMs ip user now sw =
     (let ipKey = ''ip:'' @ ip;
          ipWindow = shiftOld (now - windowMs) (windowOf sw ipKey);
          sw1 = sw(ipKey \<mapsto> ipWindow)
      in if int (length ipWindow) \<ge> ipLimit
         then (Rejected ''IP rate limit exceeded'', sw1)
         else
           (case (case user of None \<Rightarrow> None | Some userId \<Rightarrow> if userId = [] then None else Some userId) of
              None \<Rightarrow>
                (Admitted (ipLimit - int (length (ipWindow @ [now]))), sw1(ipKey \<mapsto> ipWindow @ [now]))
            | Some userId \<Rightarrow>
                (let userKey = ''user:'' @ userId;
                     userWindow = shiftOld (now - windowMs) (windowOf sw1 userKey);
                     sw2 = sw1(userKey \<mapsto> userWindow)
                 in if int (length userWindow) \<ge> userLimit
                    then (Rejected ''User rate limit exceeded'', sw2)
                    else (Admitted (ipLimit - int (length (ipWindow @ [now]))),
                          sw2(userKey \<mapsto> userWindow @ [now], ipKey \<mapsto> ipWindow @ [now])))))"

text \<open>Requests of one client at the given times, in order, through the same limiter.\<close>

fun requestsAt :: "int \<Rightarrow> int \<Rightarrow> string \<Rightarrow> int list \<Rightarrow> slidingWindows \<Rightarrow> bool list \<times> slidingWindows" where
  "requestsAt limit windowMs ip [] sw = ([], sw)"
| "requestsAt limit windowMs ip (now # later) sw =
     (case slidingWindowLimiter limit windowMs ip now sw of
        (d, sw1) \<Rightarrow>
          (case requestsAt limit windowMs ip later sw1 of (ds, sw2) \<Rightarrow> (admitted d # ds, sw2)))"



section \<open>Cache (src/src/cache.js)\<close>

text \<open>A cached payload is whatever \<open>JSON.parse\<close> returned. The lookup tests the payload
  for truthiness (\<open>if (cachedData)\<close>), so the model keeps the falsy JSON values apart:
  \<open>null\<close>, \<open>false\<close>, the number 0 and the empty string.\<close>

datatype json =
    JNull
  | JBool bool
  | JNum real
  | JStr string
  | JArr "json list"
  | JObj "(string \<times> json) list"

fun truthy :: "json \<Rightarrow> bool" where
  "truthy JNull = False"
| "truthy (JBool b) = b"
| "truthy (JNum n) = (n \<noteq> 0)"
| "truthy (JStr s) = (s \<noteq> [])"
| "truthy (JArr items) = True"
| "truthy (JObj members) = True"

record cacheMeta =
  cachedAt :: int
  expiresAt :: int

text \<open>The two module-level \<open>Map\<close>s. A JavaScript \<open>Map\<close> keeps insertion order and one entry
  per key: \<open>get\<close> is \<open>map_of\<close>, \<open>set\<close> is \<open>AList.update\<close>, \<open>delete\<close> is \<open>AList.delete\<close>.\<close>

record cacheStore =
  cache :: "(string \<times> json) list"
  cacheMetadata :: "(string \<times> cacheMeta) list"

definition cacheStore_empty :: cacheStore where
  "cacheStore_empty = \<lparr>cache = [], cacheMetadata = []\<rparr>"

definition CACHEABLE_ROUTES :: "string list" where
  "CACHEABLE_ROUTES = [''/products'', ''/stats'', ''/users'']"

definition CACHE_DURATIONS :: "(string \<times> int) list" where
  "CACHE_DURATIONS =
     [(''/products'', 5 * 60 * 1000), (''/stats'', 10 * 60 * 1000), (''/users'', 2 * 60 * 1000)]"

text \<open>\<open>cache.delete(cacheKey); cacheMetadata.delete(cacheKey)\<close>.\<close>

definition deleteEntry :: "string \<Rightarrow> cacheStore \<Rightarrow> cacheStore" where
  "deleteEntry key st =
     st\<lparr>cache := AList.delete key (cache st), cacheMetadata := AList.delete key (cacheMetadata st)\<rparr>"

text \<open>The synchronous part of \<open>cacheMiddleware(req, res, next)\<close>, up to \<open>next()\<close> or the
  cached reply. \<open>PassThrough\<close> is the early \<open>return next()\<close>; \<open>CacheHit data age\<close> is the
  reply \<open>res.json(cachedData)\<close> with \<open>X-Cache-Hit: true\<close> and \<open>X-Cache-Age: age\<close>;
  \<open>CacheMiss\<close> is \<open>next()\<close> with the \<open>res.send\<close> wrapper installed.\<close>

datatype cacheOutcome = PassThrough | CacheHit json int | CacheMiss

definition cacheMiddleware :: "string \<Rightarrow> string \<Rightarrow> int \<Rightarrow> cacheStore \<Rightarrow> cacheOutcome \<times> cacheStore" where
  "cacheMiddleware httpMethod originalUrl now st =
     (if httpMethod \<noteq> ''GET'' then (PassThrough, st)
      else if \<not> list_ex (\<lambda>route. prefix route originalUrl) CACHEABLE_ROUTES then (PassThrough, st)
      else
        (case map_of (cache st) originalUrl of
           None \<Rightarrow> (CacheMiss, st)
         | Some cachedData \<Rightarrow>
             if truthy cachedData then
               (case map_of (cacheMetadata st) originalUrl of
                  None \<Rightarrow> (CacheMiss, deleteEntry originalUrl st)
                | Some metadata \<Rightarrow>
                    if now < expiresAt metadata
                    then (CacheHit cachedData ((now - cachedAt metadata) div 1000), st)
                    else (CacheMiss, deleteEntry originalUrl st))
             else (CacheMiss, st)))"

text \<open>The duration lookup of the \<open>res.send\<close> wrapper:
  \<open>CACHE_DURATIONS[Object.keys(CACHE_DURATIONS).find(route => url.startsWith(route))] || 5 * 60 * 1000\<close>.
  \<open>find\<close> returns the first key in insertion order that matches; \<open>||\<close> also replaces a
  configured duration of 0.\<close>

definition durationFor :: "(string \<times> int) list \<Rightarrow> string \<Rightarrow> int" where
  "durationFor durations originalUrl =
     (case find (\<lambda>route. prefix route originalUrl) (map fst durations) of
        None \<Rightarrow> 5 * 60 * 1000
      | Some route \<Rightarrow>
          (case map_of durations route of
             None \<Rightarrow> 5 * 60 * 1000
           | Some d \<Rightarrow> if d = 0 then 5 * 60 * 1000 else d))"

text \<open>The \<open>res.send\<close> wrapper installed on a miss, up to the call of the original
  \<open>send\<close>. \<open>contentType\<close> is \<open>res.get('content-type')\<close> (\<open>None\<close> when the header is not
  set); \<open>jsonData\<close> is the parsed body, \<open>None\<close> when \<open>JSON.parse\<close> throws (the \<open>catch\<close>
  block only logs). \<open>now\<close> is \<open>Date.now()\<close>, read in the same synchronous step for
  \<open>cachedAt\<close> and \<open>expiresAt\<close>.\<close>

definition cacheSend :: "string \<Rightarrow> int \<Rightarrow> string option \<Rightarrow> json option \<Rightarrow> cacheStore \<Rightarrow> cacheStore" where
  "cacheSend originalUrl now contentType jsonData st =
     (case contentType of
        None \<Rightarrow> st
      | Some ct \<Rightarrow>
          if sublist ''application/json'' ct then
            (case jsonData of
               None \<Rightarrow> st
             | Some d \<Rightarrow>
                 st\<lparr>cache := AList.update originalUrl d (cache st),
                    cacheMetadata :=
                      AList.update originalUrl
                        \<lparr>cachedAt = now, expiresAt = now + durationFor CACHE_DURATIONS originalUrl\<rparr>
                        (cacheMetadata st)\<rparr>)
          else st)"

text \<open>\<open>invalidateCache(pattern)\<close>. \<open>pattern\<close> is \<open>None\<close> for \<open>undefined\<close>; the empty string
  is falsy as well. The loop visits every key of \<open>cache\<close> (a \<open>Map\<close> may be changed while it
  is iterated) and deletes the key from both maps when \<open>key.includes(pattern)\<close>.\<close>

definition invalidateCache :: "string option \<Rightarrow> cacheStore \<Rightarrow> cacheStore" where
  "invalidateCache pattern st =
     (case (case pattern of None \<Rightarrow> None | Some p \<Rightarrow> if p = [] then None else Some p) of
        None \<Rightarrow> st\<lparr>cache := [], cacheMetadata := []\<rparr>
      | Some p \<Rightarrow>
          fold (\<lambda>key st1. if sublist p key then deleteEntry key st1 else st1)
            (map fst (cache st)) st)"

text \<open>\<open>str.split(sep)\<close> for a one-character separator, and \<open>arr.join(sep)\<close>.\<close>

fun split :: "char \<Rightarrow> string \<Rightarrow> string list" where
  "split sep [] = [[]]"
| "split sep (c # cs) =
     (if c = sep then [] # split sep cs
      else (case split sep cs of [] \<Rightarrow> [[c]] | w # ws \<Rightarrow> (c # w) # ws))"

fun join :: "string \<Rightarrow> string list \<Rightarrow> string" where
  "join sep [] = []"
| "join sep [w] = w"
| "join sep (w # v # ws) = w @ sep @ join sep (v # ws)"

text \<open>\<open>req.path.split('/').slice(0, 2).join('/')\<close>.\<close>

definition baseRoute :: "string \<Rightarrow> string" where
  "baseRoute path = join ''/'' (take 2 (split CHR ''/'' path))"

text \<open>\<open>cacheInvalidationMiddleware(req, res, next)\<close>, up to \<open>next()\<close>.\<close>

definition cacheInvalidationMiddleware :: "string \<Rightarrow> string \<Rightarrow> cacheStore \<Rightarrow> cacheStore" where
  "cacheInvalidationMiddleware httpMethod path st =
     (if httpMethod \<in> set [''POST'', ''PUT'', ''DELETE'', ''PATCH'']
      then invalidateCache (Some (baseRoute path)) st
      else st)"

text \<open>\<open>clearCache()\<close>.\<close>

definition clearCache :: "cacheStore \<Rightarrow> cacheStore" where
  "clearCache st = st\<lparr>cache := [], cacheMetadata := []\<rparr>"

text \<open>The time-to-live in the specification's words: the duration of the longest
  configured prefix that matches the URL, the default when no configured prefix matches.
  It is compared below with \<open>durationFor\<close>, which is what the code computes.\<close>

fun longestMatch :: "(string \<times> int) list \<Rightarrow> string \<Rightarrow> (string \<times> int) option" where
  "longestMatch [] url = None"
| "longestMatch ((route, d) # rest) url =
     (case longestMatch rest url of
        None \<Rightarrow> if prefix route url then Some (route, d) else None
      | Some (r, d') \<Rightarrow>
          if prefix route url \<and> length r \<le> length route then Some (route, d) else Some (r, d'))"

definition ttlLongestPrefix :: "(string \<times> int) list \<Rightarrow> int \<Rightarrow> string \<Rightarrow> int" where
  "ttlLongestPrefix durations dflt url =
     (case longestMatch durations url of None \<Rightarrow> dflt | Some (r, d) \<Rightarrow> d)"


section \<open>Health checker: what a check result and an override do to a record\<close>

lemma recordOrNew_upd [simp]: "recordOrNew (sh(service \<mapsto> h)) service = h"
  by (simp add: recordOrNew_def)

lemma recordOrNew_other [simp]:
  "other \<noteq> service \<Longrightarrow> recordOrNew (sh(service \<mapsto> h)) other = recordOrNew sh other"
  by (simp add: recordOrNew_def)

text \<open>A successful check marks the record healthy; it resets the failure counter only
  when the record was unhealthy before.\<close>

lemma updateServiceHealth_success:
  "recordOrNew (updateServiceHealth now service True sh) service =
     (if healthy (recordOrNew sh service)
      then (recordOrNew sh service)\<lparr>lastChecked := Some now\<rparr>
      else (recordOrNew sh service)\<lparr>lastChecked := Some now, healthy := True,
             consecutiveFailures := 0\<rparr>)"
  by (simp add: updateServiceHealth_def Let_def)

lemma updateServiceHealth_failure:
  "recordOrNew (updateServiceHealth now service False sh) service =
     (recordOrNew sh service)\<lparr>lastChecked := Some now,
        consecutiveFailures := consecutiveFailures (recordOrNew sh service) + 1,
        lastFailureTime := Some now,
        healthy := healthy (recordOrNew sh service)
                   \<and> consecutiveFailures (recordOrNew sh service) + 1 < 3\<rparr>"
  by (simp add: updateServiceHealth_def Let_def)

lemma recordOrNew_empty [simp]: "recordOrNew Map.empty service = newRecord"
  by (simp add: recordOrNew_def)

lemma updateServiceHealth_other:
  "other \<noteq> service \<Longrightarrow> updateServiceHealth now service b sh other = sh other"
  by (simp add: updateServiceHealth_def Let_def)

text \<open>The parts of the health state machine that hold for every record: three failed
  checks in a row leave it unhealthy and filtered out, and one successful check brings it
  back.\<close>

lemma three_failures_unhealthy:
  "\<not> healthy (recordOrNew (recordChecks service [(t1, False), (t2, False), (t3, False)] sh) service)"
  by (simp add: updateServiceHealth_failure)

lemma success_healthy:
  "healthy (recordOrNew (updateServiceHealth now service True sh) service)"
  by (simp add: updateServiceHealth_success)

lemma getHealthyServices_iff:
  "service \<in> set (getHealthyServices path allServices sh) \<longleftrightarrow>
     service \<in> set allServices \<and> (\<exists>h. sh service = Some h \<and> healthy h)"
  by (auto simp: getHealthyServices_def split: option.splits)

lemma getHealthyServices_all:
  "(\<And>s. s \<in> set allServices \<Longrightarrow> \<exists>h. sh s = Some h \<and> healthy h) \<Longrightarrow>
   getHealthyServices path allServices sh = allServices"
  unfolding getHealthyServices_def filter_id_conv by fastforce

lemma fold_newRecord:
  "fold (\<lambda>service sh2. sh2(service \<mapsto> newRecord)) services sh x =
     (if x \<in> set services then Some newRecord else sh x)"
  by (induction services arbitrary: sh) auto

lemma initHealthChecker_apply:
  "initHealthChecker routes sh x =
     (if \<exists>(path, services) \<in> set routes. x \<in> set services then Some newRecord else sh x)"
  unfolding initHealthChecker_def
  by (induction routes arbitrary: sh) (auto simp: fold_newRecord)

text \<open>
  Claim C1. The claim: the healthy flag goes from true to false only when a failed check
  brings \<open>consecutiveFailures\<close> to 3 after three consecutive failures. The code at the
  check sequence fail, fail, success, fail on a new record: the success leaves the counter
  at 2 (the record was still healthy), so the fourth check brings it to 3 and marks the
  service unhealthy, although the check just before it succeeded; the filter then
  excludes the service.
\<close>

theorem C1_unhealthy_without_three_in_a_row:
  "healthy (recordOrNew (recordChecks ''http://localhost:3001''
      [(1000, False), (2000, False), (3000, True)] serviceHealth_empty) ''http://localhost:3001'')
   \<and> recordOrNew (recordChecks ''http://localhost:3001''
      [(1000, False), (2000, False), (3000, True), (4000, False)] serviceHealth_empty)
        ''http://localhost:3001''
     = \<lparr>healthy = False, lastChecked = Some 4000, consecutiveFailures = 3,
        lastFailureTime = Some 4000\<rparr>
   \<and> getHealthyServices ''/users'' [''http://localhost:3001'']
       (recordChecks ''http://localhost:3001''
         [(1000, False), (2000, False), (3000, True), (4000, False)] serviceHealth_empty) = []"
  by (simp add: updateServiceHealth_def recordOrNew_def newRecord_def serviceHealth_empty_def
      Let_def getHealthyServices_def)

text \<open>
  Claim C2. The claim: a successful check resets \<open>consecutiveFailures\<close> to 0 whatever the
  record was. The code after one failed and one successful check on a new record: the
  record is healthy and the counter is still 1, because the reset sits inside
  \<open>if (!health.healthy)\<close>.
\<close>

theorem C2_success_keeps_counter:
  "recordOrNew (recordChecks ''http://localhost:3001'' [(1000, False), (2000, True)]
      serviceHealth_empty) ''http://localhost:3001''
   = \<lparr>healthy = True, lastChecked = Some 2000, consecutiveFailures = 1,
      lastFailureTime = Some 1000\<rparr>"
  by (simp add: updateServiceHealth_def recordOrNew_def newRecord_def serviceHealth_empty_def
      Let_def)

text \<open>
  Claim C6, as the code has it. The filter keeps a service exactly when a record exists
  for it and the record's flag is true, so a service with no record is left out. The
  optimistic default is in the creation of records: \<open>initHealthChecker\<close> gives every
  service of every configured route a record that is healthy, so the services of a
  configured route all pass the filter before any probe has completed.
\<close>

theorem C6_filter_requires_record:
  "(sh service = None \<longrightarrow> service \<notin> set (getHealthyServices path allServices sh))
   \<and> (service \<in> set (getHealthyServices path allServices sh) \<longleftrightarrow>
        service \<in> set allServices \<and> (\<exists>h. sh service = Some h \<and> healthy h))
   \<and> ((route, services) \<in> set routes \<longrightarrow>
        getHealthyServices route services (initHealthChecker routes sh) = services)"
proof (intro conjI impI)
  assume "sh service = None"
  then show "service \<notin> set (getHealthyServices path allServices sh)"
    by (simp add: getHealthyServices_iff)
next
  show "service \<in> set (getHealthyServices path allServices sh) \<longleftrightarrow>
        service \<in> set allServices \<and> (\<exists>h. sh service = Some h \<and> healthy h)"
    by (rule getHealthyServices_iff)
next
  assume r: "(route, services) \<in> set routes"
  show "getHealthyServices route services (initHealthChecker routes sh) = services"
  proof (rule getHealthyServices_all)
    fix s assume "s \<in> set services"
    with r have "initHealthChecker routes sh s = Some newRecord"
      by (auto simp: initHealthChecker_apply)
    then show "\<exists>h. initHealthChecker routes sh s = Some h \<and> healthy h"
      by (simp add: newRecord_def)
  qed
qed

theorem C6_witness:
  "serviceHealth_empty ''http://localhost:3002'' = None
   \<and> ''http://localhost:3002'' \<notin> set (getHealthyServices ''/users''
         [''http://localhost:3001'', ''http://localhost:3002''] serviceHealth_empty)
   \<and> (''/users'', [''http://localhost:3001'', ''http://localhost:3002''])
       \<in> set [(''/users'', [''http://localhost:3001'', ''http://localhost:3002''])]
   \<and> getHealthyServices ''/users'' [''http://localhost:3001'', ''http://localhost:3002'']
        (initHealthChecker [(''/users'', [''http://localhost:3001'', ''http://localhost:3002''])]
           serviceHealth_empty)
       = [''http://localhost:3001'', ''http://localhost:3002'']"
  using C6_filter_requires_record [of serviceHealth_empty "''http://localhost:3002''" "''/users''"
      "[''http://localhost:3001'', ''http://localhost:3002'']" "''/users''"
      "[''http://localhost:3001'', ''http://localhost:3002'']"
      "[(''/users'', [''http://localhost:3001'', ''http://localhost:3002''])]"]
  by (simp add: serviceHealth_empty_def)

text \<open>The claim as the specification states it fails for a service that has no record:
  the filter returns the empty list.\<close>

theorem C6_counterexample:
  "serviceHealth_empty ''http://localhost:3001'' = None
   \<and> getHealthyServices ''/users'' [''http://localhost:3001''] serviceHealth_empty = []"
  by (simp add: serviceHealth_empty_def getHealthyServices_def)

text \<open>
  Claim C10. The manual override sets the flag to the given value and \<open>lastChecked\<close> to
  the current time, and leaves \<open>consecutiveFailures\<close> and \<open>lastFailureTime\<close> as they were
  (for a service without a record: as the new record has them, 0 and none); no other
  service's record changes. So when the counter is already 3 or more, the override to
  healthy is undone by a single failed check.
\<close>

theorem C10_setServiceHealth_frame:
  "healthy (recordOrNew (setServiceHealth now service h sh) service) = h
   \<and> lastChecked (recordOrNew (setServiceHealth now service h sh) service) = Some now
   \<and> consecutiveFailures (recordOrNew (setServiceHealth now service h sh) service)
       = consecutiveFailures (recordOrNew sh service)
   \<and> lastFailureTime (recordOrNew (setServiceHealth now service h sh) service)
       = lastFailureTime (recordOrNew sh service)
   \<and> (other \<noteq> service \<longrightarrow> setServiceHealth now service h sh other = sh other)
   \<and> (3 \<le> consecutiveFailures (recordOrNew sh service) \<longrightarrow>
        healthy (recordOrNew (setServiceHealth now service True sh) service)
        \<and> \<not> healthy (recordOrNew (updateServiceHealth later service False
                          (setServiceHealth now service True sh)) service))"
proof -
  have override: "recordOrNew (setServiceHealth now service b sh) service
      = (recordOrNew sh service)\<lparr>healthy := b, lastChecked := Some now\<rparr>" for b
    by (simp add: setServiceHealth_def)
  have frame: "other \<noteq> service \<Longrightarrow> setServiceHealth now service h sh other = sh other"
    by (simp add: setServiceHealth_def)
  have again: "\<not> healthy (recordOrNew (updateServiceHealth later service False
        (setServiceHealth now service True sh)) service)"
    if "3 \<le> consecutiveFailures (recordOrNew sh service)"
    using that by (simp add: updateServiceHealth_failure override)
  from frame again show ?thesis
    by (simp add: override)
qed

theorem C10_witness:
  "3 \<le> consecutiveFailures (recordOrNew (recordChecks ''http://localhost:3001''
           [(1000, False), (2000, False), (3000, False)] serviceHealth_empty)
             ''http://localhost:3001'')
   \<and> healthy (recordOrNew (setServiceHealth 4000 ''http://localhost:3001'' True
        (recordChecks ''http://localhost:3001'' [(1000, False), (2000, False), (3000, False)]
           serviceHealth_empty)) ''http://localhost:3001'')
   \<and> \<not> healthy (recordOrNew (updateServiceHealth 5000 ''http://localhost:3001'' False
        (setServiceHealth 4000 ''http://localhost:3001'' True
          (recordChecks ''http://localhost:3001'' [(1000, False), (2000, False), (3000, False)]
             serviceHealth_empty))) ''http://localhost:3001'')
   \<and> ''http://localhost:3002'' \<noteq> ''http://localhost:3001''"
  using C10_setServiceHealth_frame [of 4000 "''http://localhost:3001''" True
      "recordChecks ''http://localhost:3001'' [(1000, False), (2000, False), (3000, False)]
         serviceHealth_empty"
      "''http://localhost:3002''" 5000]
  by (simp add: updateServiceHealth_failure serviceHealth_empty_def newRecord_def)

section \<open>Load balancer: round robin\<close>

lemma counterOf_upd [simp]: "counterOf (cs(path \<mapsto> c)) path = c"
  by (simp add: counterOf_def)

lemma getNextTargetRoundRobin_nonempty:
  "services \<noteq> [] \<Longrightarrow>
   getNextTargetRoundRobin path services cs =
     (Some (services ! (counterOf cs path mod length services)), cs(path \<mapsto> counterOf cs path + 1))"
  by (simp add: getNextTargetRoundRobin_def Let_def)

lemma selections_Suc_fst:
  "fst (selections (Suc n) path services cs) =
     fst (getNextTargetRoundRobin path services cs)
       # fst (selections n path services (snd (getNextTargetRoundRobin path services cs)))"
  by (simp split: prod.splits)

lemma selections_targets:
  "services \<noteq> [] \<Longrightarrow>
   fst (selections n path services cs) =
     map (\<lambda>k. Some (services ! ((counterOf cs path + k) mod length services))) [0..<n]"
proof (induction n arbitrary: cs)
  case 0
  show ?case by simp
next
  case (Suc n)
  have "fst (selections (Suc n) path services cs) =
      Some (services ! (counterOf cs path mod length services))
       # fst (selections n path services (cs(path \<mapsto> counterOf cs path + 1)))"
    by (simp only: selections_Suc_fst getNextTargetRoundRobin_nonempty [OF Suc.prems]
          fst_conv snd_conv)
  also have "fst (selections n path services (cs(path \<mapsto> counterOf cs path + 1)))
     = map (\<lambda>k. Some (services ! ((counterOf (cs(path \<mapsto> counterOf cs path + 1)) path + k)
              mod length services))) [0..<n]"
    by (rule Suc.IH [OF Suc.prems])
  also have "\<dots> = map (\<lambda>k. Some (services ! ((counterOf cs path + Suc k) mod length services)))
      [0..<n]"
    by simp
  finally show ?case
    by (simp add: map_upt_Suc del: upt_Suc selections.simps)
qed


lemma selections_Suc_snd:
  "snd (selections (Suc n) path services cs) =
     snd (selections n path services (snd (getNextTargetRoundRobin path services cs)))"
  by (simp split: prod.splits)

lemma snd_getNextTargetRoundRobin:
  "snd (getNextTargetRoundRobin path services cs) = cs(path \<mapsto> counterOf cs path + 1)"
  by (simp add: getNextTargetRoundRobin_def Let_def)

lemma selections_counterOf:
  "counterOf (snd (selections n path services cs)) path = counterOf cs path + n"
proof (induction n arbitrary: cs)
  case 0
  show ?case by simp
next
  case (Suc n)
  have "counterOf (snd (selections n path services (cs(path \<mapsto> counterOf cs path + 1)))) path
        = counterOf (cs(path \<mapsto> counterOf cs path + 1)) path + n"
    by (rule Suc.IH)
  then show ?case
    by (simp add: selections_Suc_snd snd_getNextTargetRoundRobin del: selections.simps)
qed

lemma selections_other:
  "other \<noteq> path \<Longrightarrow> snd (selections n path services cs) other = cs other"
proof (induction n arbitrary: cs)
  case 0
  show ?case by simp
next
  case (Suc n)
  have "snd (selections n path services (cs(path \<mapsto> counterOf cs path + 1))) other
        = (cs(path \<mapsto> counterOf cs path + 1)) other"
    by (rule Suc.IH [OF Suc.prems])
  with Suc.prems show ?case
    by (simp add: selections_Suc_snd snd_getNextTargetRoundRobin del: selections.simps)
qed

lemma mset_rotate_eq: "mset (rotate n xs) = mset xs"
proof -
  have "mset (drop k xs @ take k xs) = mset (take k xs @ drop k xs)" for k
    by (simp only: mset_append union_commute)
  then show ?thesis
    by (simp only: rotate_drop_take append_take_drop_id)
qed

lemma cycle_is_rotate:
  "xs \<noteq> [] \<Longrightarrow> map (\<lambda>k. xs ! ((c + k) mod length xs)) [0..<length xs] = rotate c xs"
  by (rule nth_equalityI) (simp_all add: nth_rotate)

lemma selections_cycle:
  assumes "services \<noteq> []"
  shows "fst (selections (length services) path services cs)
          = map Some (rotate (counterOf cs path) services)"
proof -
  have "fst (selections (length services) path services cs)
        = map Some (map (\<lambda>k. services ! ((counterOf cs path + k) mod length services))
            [0..<length services])"
    by (simp add: selections_targets [OF assms])
  then show ?thesis
    by (simp only: cycle_is_rotate [OF assms])
qed


lemma counterOf_empty [simp]: "counterOf counters_empty path = 0"
  by (simp add: counterOf_def counters_empty_def)

text \<open>
  Claim C3. The cursor of a path starts at 0 and every selection adds exactly 1 to it,
  whatever the service list is. For a non-empty service list of length \<open>N\<close> that stays the
  same, a selection returns \<open>services[cursor mod N]\<close>; \<open>n\<close> selections in a row return the
  services at indices \<open>cursor + k mod N\<close> for \<open>k < n\<close>; and \<open>N\<close> selections in a row return
  the list rotated by the cursor: every service as often as the list holds it (once when
  it is listed once), in the cyclic order of the list, starting from the first service
  when the cursor is new.
\<close>

theorem C3_round_robin:
  "counterOf counters_empty path = 0
   \<and> counterOf (snd (getNextTargetRoundRobin path services cs)) path = counterOf cs path + 1
   \<and> (services \<noteq> [] \<longrightarrow>
        fst (getNextTargetRoundRobin path services cs)
          = Some (services ! (counterOf cs path mod length services))
        \<and> fst (selections n path services cs)
          = map (\<lambda>k. Some (services ! ((counterOf cs path + k) mod length services))) [0..<n]
        \<and> counterOf (snd (selections n path services cs)) path = counterOf cs path + n
        \<and> fst (selections (length services) path services cs)
          = map Some (rotate (counterOf cs path) services)
        \<and> mset (fst (selections (length services) path services cs)) = mset (map Some services)
        \<and> fst (selections (length services) path services counters_empty) = map Some services)"
proof (intro conjI impI)
  show "counterOf counters_empty path = 0" by simp
  show "counterOf (snd (getNextTargetRoundRobin path services cs)) path = counterOf cs path + 1"
    by (simp add: snd_getNextTargetRoundRobin)
next
  assume ne: "services \<noteq> []"
  then show "fst (getNextTargetRoundRobin path services cs)
          = Some (services ! (counterOf cs path mod length services))"
    by (simp add: getNextTargetRoundRobin_nonempty)
  from ne show "fst (selections n path services cs)
          = map (\<lambda>k. Some (services ! ((counterOf cs path + k) mod length services))) [0..<n]"
    by (rule selections_targets)
  show "counterOf (snd (selections n path services cs)) path = counterOf cs path + n"
    by (rule selections_counterOf)
  show "fst (selections (length services) path services cs)
          = map Some (rotate (counterOf cs path) services)"
    by (rule selections_cycle [OF ne])
  show "mset (fst (selections (length services) path services cs)) = mset (map Some services)"
    by (simp only: selections_cycle [OF ne] rotate_map [symmetric] mset_rotate_eq)
  show "fst (selections (length services) path services counters_empty) = map Some services"
    by (simp add: selections_cycle [OF ne])
qed

theorem C3_witness:
  "[''A'', ''B'', ''C''] \<noteq> []
   \<and> fst (selections 3 ''/users'' [''A'', ''B'', ''C''] (counters_empty(''/users'' \<mapsto> 4)))
       = [Some ''B'', Some ''C'', Some ''A'']
   \<and> counterOf (snd (selections 3 ''/users'' [''A'', ''B'', ''C'']
         (counters_empty(''/users'' \<mapsto> 4)))) ''/users'' = 7
   \<and> fst (selections 3 ''/users'' [''A'', ''B'', ''C''] counters_empty)
       = [Some ''A'', Some ''B'', Some ''C'']"
proof -
  let ?svc = "[''A'', ''B'', ''C'']"
  let ?cs = "counters_empty(''/users'' \<mapsto> 4)"
  have ne: "?svc \<noteq> []" by simp
  have len: "length ?svc = 3" by simp
  note rr = C3_round_robin [of "''/users''" ?svc ?cs 3]
  from rr ne have "fst (selections (length ?svc) ''/users'' ?svc ?cs)
      = map Some (rotate (counterOf ?cs ''/users'') ?svc)"
    by blast
  moreover have "rotate (counterOf ?cs ''/users'') ?svc = [''B'', ''C'', ''A'']"
    by (simp add: rotate_def eval_nat_numeral)
  ultimately have a: "fst (selections 3 ''/users'' ?svc ?cs) = [Some ''B'', Some ''C'', Some ''A'']"
    by (simp only: len list.map)
  from rr ne have "counterOf (snd (selections 3 ''/users'' ?svc ?cs)) ''/users''
      = counterOf ?cs ''/users'' + 3"
    by blast
  then have b: "counterOf (snd (selections 3 ''/users'' ?svc ?cs)) ''/users'' = 7"
    by simp
  from rr ne have "fst (selections (length ?svc) ''/users'' ?svc counters_empty) = map Some ?svc"
    by blast
  then have c: "fst (selections 3 ''/users'' ?svc counters_empty)
      = [Some ''A'', Some ''B'', Some ''C'']"
    by (simp only: len list.map)
  from ne a b c show ?thesis by blast
qed

section \<open>Load balancer: least connections\<close>

lemma mathMin_Some:
  "mathMin xs = Some m \<Longrightarrow> m \<in> set xs \<and> (\<forall>x \<in> set xs. m \<le> x)"
proof (induction xs arbitrary: m)
  case Nil
  then show ?case by simp
next
  case (Cons x xs)
  show ?case
  proof (cases "mathMin xs")
    case None
    then have "xs = []" by (cases xs) (auto split: option.splits)
    with Cons.prems show ?thesis by simp
  next
    case (Some m')
    with Cons.IH have "m' \<in> set xs" and "\<forall>x \<in> set xs. m' \<le> x" by auto
    with Cons.prems Some show ?thesis by (auto simp: min_def split: if_splits)
  qed
qed

lemma elementAt_Some: "elementAt xs i = Some x \<Longrightarrow> x \<in> set xs"
  by (auto simp: elementAt_def split: if_splits)

text \<open>What the selection guarantees when it returns a service: the service is one of
  those passed, and its count is the least of all counts recorded for the path (so it
  does not exceed the count of any passed service that has one).\<close>

lemma getNextTargetLeastConnections_sound:
  assumes "getNextTargetLeastConnections random path services ac = (Some s, ac')"
  shows "s \<in> set services
         \<and> (\<exists>conns n. ac' path = Some conns \<and> map_of conns s = Some n
               \<and> (\<forall>m \<in> set (map snd conns). n \<le> m))"
proof -
  define ac1 where "ac1 = (case ac path of
        None \<Rightarrow> ac(path \<mapsto> fold (\<lambda>s obj. AList.update s 0 obj) services [])
      | Some obj \<Rightarrow> ac)"
  define conns where "conns = (case ac1 path of None \<Rightarrow> [] | Some obj \<Rightarrow> obj)"
  define least where "least = filter (\<lambda>s. case map_of conns s of None \<Rightarrow> False
        | Some n \<Rightarrow> Some n = mathMin (map snd conns)) services"
  have "getNextTargetLeastConnections random path services ac
        = (elementAt least (nat \<lfloor>random * real (length least)\<rfloor>), ac1)"
    unfolding getNextTargetLeastConnections_def Let_def ac1_def conns_def least_def ..
  with assms have ac': "ac' = ac1"
    and sel: "elementAt least (nat \<lfloor>random * real (length least)\<rfloor>) = Some s"
    by simp_all
  have some: "ac1 path = Some conns"
    by (auto simp: ac1_def conns_def split: option.splits)
  from sel have "s \<in> set least" by (rule elementAt_Some)
  then have s: "s \<in> set services"
    and "case map_of conns s of None \<Rightarrow> False | Some n \<Rightarrow> Some n = mathMin (map snd conns)"
    by (simp_all add: least_def)
  then obtain n where n: "map_of conns s = Some n" and "mathMin (map snd conns) = Some n"
    by (cases "map_of conns s") auto
  then have "\<forall>m \<in> set (map snd conns). n \<le> m"
    using mathMin_Some by blast
  with s n some ac' show ?thesis by blast
qed

text \<open>
  Claim C5. The claim: for a non-empty list of healthy services the selection returns a
  service of that list. The code on the route \<open>/users\<close> with services A and B: the first
  selection creates the counts A = 0, B = 0 and picks B, whose count then becomes 1. When
  A has turned unhealthy and the list passed is B alone, the minimum is still taken over
  every recorded count (A's 0 included), no passed service has that count, and the
  selection returns \<open>undefined\<close>, whatever \<open>Math.random()\<close> gives.
\<close>

theorem C5_no_target_for_nonempty_list:
  "getNextTargetLeastConnections (1 / 2) ''/users'' [''A'', ''B''] activeConnections_empty
     = (Some ''B'', activeConnections_empty(''/users'' \<mapsto> [(''A'', 0), (''B'', 0)]))
   \<and> incrementConnections ''/users'' ''B''
       (activeConnections_empty(''/users'' \<mapsto> [(''A'', 0), (''B'', 0)]))
     = activeConnections_empty(''/users'' \<mapsto> [(''A'', 0), (''B'', 1)])
   \<and> fst (getNextTargetLeastConnections random ''/users'' [''B'']
         (activeConnections_empty(''/users'' \<mapsto> [(''A'', 0), (''B'', 1)]))) = None"
  by (simp add: getNextTargetLeastConnections_def incrementConnections_def elementAt_def
      activeConnections_empty_def Let_def)

section \<open>Rate limiter: the sliding window\<close>

lemma windowOf_upd [simp]: "windowOf (sw(key \<mapsto> w)) key = w"
  by (simp add: windowOf_def)

lemma windowOf_empty [simp]: "windowOf slidingWindows_empty key = []"
  by (simp add: windowOf_def slidingWindows_empty_def)


text \<open>On a window in time order the loop removes every timestamp older than the bound.\<close>

lemma shiftOld_sorted: "sorted w \<Longrightarrow> shiftOld bound w = filter (\<lambda>t. bound \<le> t) w"
proof (induction w)
  case Nil
  show ?case by simp
next
  case (Cons t ts)
  show ?case
  proof (cases "t < bound")
    case True
    with Cons show ?thesis by simp
  next
    case False
    with Cons.prems have "\<forall>u \<in> set (t # ts). bound \<le> u" by auto
    then have "filter (\<lambda>t. bound \<le> t) (t # ts) = t # ts"
      by (simp only: filter_id_conv)
    with False show ?thesis by simp
  qed
qed

lemma shiftOld_length: "length (shiftOld bound w) \<le> length w"
  by (induction w) (simp_all add: le_SucI)

lemma shiftOld_same_length: "length (shiftOld bound w) = length w \<Longrightarrow> shiftOld bound w = w"
proof (cases w)
  case Nil
  then show ?thesis by simp
next
  case (Cons t ts)
  assume len: "length (shiftOld bound w) = length w"
  show ?thesis
  proof (cases "t < bound")
    case True
    with Cons len have "length (shiftOld bound ts) = Suc (length ts)" by simp
    with shiftOld_length [of bound ts] show ?thesis by simp
  next
    case False
    with Cons show ?thesis by simp
  qed
qed

lemma shiftOld_none_old: "\<forall>t \<in> set w. bound \<le> t \<Longrightarrow> shiftOld bound w = w"
  by (cases w) simp_all

lemma shiftOld_all_old: "\<forall>t \<in> set w. t < bound \<Longrightarrow> shiftOld bound w = []"
  by (induction w) simp_all

lemma slidingWindowLimiter_eq:
  "slidingWindowLimiter limit windowMs ip now sw =
     (if limit \<le> int (length (shiftOld (now - windowMs) (windowOf sw ip)))
      then (Rejected ''Too many requests'', sw(ip \<mapsto> shiftOld (now - windowMs) (windowOf sw ip)))
      else (Admitted (limit - int (length (shiftOld (now - windowMs) (windowOf sw ip) @ [now]))),
            sw(ip \<mapsto> shiftOld (now - windowMs) (windowOf sw ip) @ [now])))"
  by (simp add: slidingWindowLimiter_def Let_def)

lemma requestsAt_fst_Cons:
  "fst (requestsAt limit windowMs ip (now # later) sw) =
     admitted (fst (slidingWindowLimiter limit windowMs ip now sw))
       # fst (requestsAt limit windowMs ip later (snd (slidingWindowLimiter limit windowMs ip now sw)))"
  by (simp split: prod.splits)

lemma requestsAt_snd_Cons:
  "snd (requestsAt limit windowMs ip (now # later) sw) =
     snd (requestsAt limit windowMs ip later (snd (slidingWindowLimiter limit windowMs ip now sw)))"
  by (simp split: prod.splits)

lemma requestsAt_fst_append:
  "fst (requestsAt limit windowMs ip (ts @ us) sw) =
     fst (requestsAt limit windowMs ip ts sw)
       @ fst (requestsAt limit windowMs ip us (snd (requestsAt limit windowMs ip ts sw)))"
proof (induction ts arbitrary: sw)
  case Nil
  show ?case by simp
next
  case (Cons t ts)
  show ?case
    unfolding append_Cons requestsAt_fst_Cons requestsAt_snd_Cons
    by (simp only: Cons.IH append_Cons)
qed

text \<open>While no recorded timestamp is older than the window at any of the request times
  and the limit is not reached, every request is admitted and recorded.\<close>

lemma requestsAt_all_admitted:
  assumes "\<forall>t \<in> set ts. \<forall>u \<in> set (windowOf sw ip) \<union> set ts. t - windowMs \<le> u"
    and "int (length (windowOf sw ip)) + int (length ts) \<le> limit"
  shows "fst (requestsAt limit windowMs ip ts sw) = replicate (length ts) True
         \<and> windowOf (snd (requestsAt limit windowMs ip ts sw)) ip = windowOf sw ip @ ts"
  using assms
proof (induction ts arbitrary: sw)
  case Nil
  show ?case by simp
next
  case (Cons t ts)
  let ?w = "windowOf sw ip"
  let ?sw1 = "sw(ip \<mapsto> ?w @ [t])"
  from Cons.prems(1) have "\<forall>u \<in> set ?w. t - windowMs \<le> u" by simp
  then have keep: "shiftOld (t - windowMs) ?w = ?w" by (rule shiftOld_none_old)
  from Cons.prems(2) have room: "\<not> limit \<le> int (length ?w)" by simp
  have step: "slidingWindowLimiter limit windowMs ip t sw
      = (Admitted (limit - int (length (?w @ [t]))), ?sw1)"
    using room by (simp only: slidingWindowLimiter_eq keep if_False)
  have w1: "windowOf ?sw1 ip = ?w @ [t]" by simp
  have "\<forall>t' \<in> set ts. \<forall>u \<in> set (windowOf ?sw1 ip) \<union> set ts. t' - windowMs \<le> u"
    using Cons.prems(1) by (auto simp: w1)
  moreover have "int (length (windowOf ?sw1 ip)) + int (length ts) \<le> limit"
    using Cons.prems(2) by (simp add: w1)
  ultimately have ih: "fst (requestsAt limit windowMs ip ts ?sw1) = replicate (length ts) True
         \<and> windowOf (snd (requestsAt limit windowMs ip ts ?sw1)) ip = windowOf ?sw1 ip @ ts"
    by (rule Cons.IH)
  show ?case
    unfolding requestsAt_fst_Cons requestsAt_snd_Cons step fst_conv snd_conv
    using ih by (simp add: w1)
qed


text \<open>The scenario of the specification: a client with an empty window makes as many
  requests as the limit allows, one more while all of them are still inside the window,
  and one after all of them have left it.\<close>

lemma requestsAt_scenario:
  assumes empty: "windowOf sw ip = []"
    and ne: "ts \<noteq> []"
    and len: "int (length ts) = limit"
    and within: "\<forall>t \<in> set ts. t \<le> later \<and> later - windowMs \<le> t"
    and elapsed: "\<forall>t \<in> set ts. t < after - windowMs"
  shows "fst (requestsAt limit windowMs ip (ts @ [later, after]) sw)
         = replicate (length ts) True @ [False, True]"
proof -
  let ?sw1 = "snd (requestsAt limit windowMs ip ts sw)"
  have "\<forall>t \<in> set ts. \<forall>u \<in> set (windowOf sw ip) \<union> set ts. t - windowMs \<le> u"
  proof (intro ballI)
    fix t u assume "t \<in> set ts" and "u \<in> set (windowOf sw ip) \<union> set ts"
    with within empty have "t \<le> later" and "later - windowMs \<le> u" by simp_all
    then show "t - windowMs \<le> u" by linarith
  qed
  moreover have "int (length (windowOf sw ip)) + int (length ts) \<le> limit"
    using empty len by simp
  ultimately have first: "fst (requestsAt limit windowMs ip ts sw) = replicate (length ts) True"
    and w1: "windowOf ?sw1 ip = ts"
    using requestsAt_all_admitted [of ts sw ip windowMs limit] empty by simp_all
  have keep: "shiftOld (later - windowMs) ts = ts"
    using within by (simp add: shiftOld_none_old)
  have rej: "slidingWindowLimiter limit windowMs ip later ?sw1
      = (Rejected ''Too many requests'', ?sw1(ip \<mapsto> ts))"
    using len by (simp add: slidingWindowLimiter_eq w1 keep)
  have gone: "shiftOld (after - windowMs) ts = []"
    using elapsed by (rule shiftOld_all_old)
  from ne len have pos: "0 < limit" by (cases ts) auto
  have adm: "admitted (fst (slidingWindowLimiter limit windowMs ip after (?sw1(ip \<mapsto> ts))))"
    using pos by (simp add: slidingWindowLimiter_eq gone)
  have "fst (requestsAt limit windowMs ip [later, after] ?sw1) = [False, True]"
    unfolding requestsAt_fst_Cons requestsAt_snd_Cons rej fst_conv snd_conv
    using adm by simp
  with first show ?thesis
    by (simp only: requestsAt_fst_append)
qed

text \<open>One evaluation by the stand-alone \<open>slidingWindowLimiter\<close>, which keys the window by
  the address alone: the same pruning, the same test against the limit, and the same
  scenario.\<close>

lemma slidingWindowLimiter_evaluation:
  "(sorted (windowOf sw ip) \<longrightarrow>
      shiftOld (now - windowMs) (windowOf sw ip)
        = filter (\<lambda>t. now - windowMs \<le> t) (windowOf sw ip))
   \<and> (admitted (fst (slidingWindowLimiter limit windowMs ip now sw)) \<longleftrightarrow>
        int (length (shiftOld (now - windowMs) (windowOf sw ip))) < limit)
   \<and> (admitted (fst (slidingWindowLimiter limit windowMs ip now sw)) \<longrightarrow>
        windowOf (snd (slidingWindowLimiter limit windowMs ip now sw)) ip
          = shiftOld (now - windowMs) (windowOf sw ip) @ [now])
   \<and> (\<not> admitted (fst (slidingWindowLimiter limit windowMs ip now sw)) \<longrightarrow>
        windowOf (snd (slidingWindowLimiter limit windowMs ip now sw)) ip
          = shiftOld (now - windowMs) (windowOf sw ip)
        \<and> (int (length (windowOf sw ip)) \<le> limit \<longrightarrow>
             windowOf (snd (slidingWindowLimiter limit windowMs ip now sw)) ip = windowOf sw ip))
   \<and> (other \<noteq> ip \<longrightarrow> snd (slidingWindowLimiter limit windowMs ip now sw) other = sw other)
   \<and> (int (length (windowOf sw ip)) \<le> limit \<longrightarrow>
        int (length (windowOf (snd (slidingWindowLimiter limit windowMs ip now sw)) ip)) \<le> limit)
   \<and> (windowOf sw ip = [] \<and> ts \<noteq> [] \<and> int (length ts) = limit
        \<and> (\<forall>t \<in> set ts. t \<le> later \<and> later - windowMs \<le> t)
        \<and> (\<forall>t \<in> set ts. t < after - windowMs) \<longrightarrow>
        fst (requestsAt limit windowMs ip (ts @ [later, after]) sw)
          = replicate (length ts) True @ [False, True])"
proof (intro conjI impI)
  let ?w = "windowOf sw ip"
  let ?w' = "shiftOld (now - windowMs) ?w"
  let ?r = "slidingWindowLimiter limit windowMs ip now sw"
  show "sorted ?w \<Longrightarrow> ?w' = filter (\<lambda>t. now - windowMs \<le> t) ?w"
    by (rule shiftOld_sorted)
  show "admitted (fst ?r) \<longleftrightarrow> int (length ?w') < limit"
    by (simp add: slidingWindowLimiter_eq)
  show "admitted (fst ?r) \<Longrightarrow> windowOf (snd ?r) ip = ?w' @ [now]"
    by (simp add: slidingWindowLimiter_eq split: if_splits)
  show rej: "\<not> admitted (fst ?r) \<Longrightarrow> windowOf (snd ?r) ip = ?w'"
    by (simp add: slidingWindowLimiter_eq split: if_splits)
  show "windowOf (snd ?r) ip = ?w"
    if "\<not> admitted (fst ?r)" and bound: "int (length ?w) \<le> limit"
  proof -
    from that(1) have "limit \<le> int (length ?w')"
      by (simp add: slidingWindowLimiter_eq split: if_splits)
    with bound shiftOld_length [of "now - windowMs" ?w] have "length ?w' = length ?w"
      by simp
    then have "?w' = ?w" by (rule shiftOld_same_length)
    with rej [OF that(1)] show ?thesis by simp
  qed
  show "other \<noteq> ip \<Longrightarrow> snd ?r other = sw other"
    by (simp add: slidingWindowLimiter_eq)
  show "int (length (windowOf (snd ?r) ip)) \<le> limit" if "int (length ?w) \<le> limit"
    using that shiftOld_length [of "now - windowMs" ?w]
    by (simp add: slidingWindowLimiter_eq)
  show "fst (requestsAt limit windowMs ip (ts @ [later, after]) sw)
          = replicate (length ts) True @ [False, True]"
    if "windowOf sw ip = [] \<and> ts \<noteq> [] \<and> int (length ts) = limit
        \<and> (\<forall>t \<in> set ts. t \<le> later \<and> later - windowMs \<le> t)
        \<and> (\<forall>t \<in> set ts. t < after - windowMs)"
    using that by (intro requestsAt_scenario) simp_all
qed

text \<open>The limiter that index.js installs runs before authentication, so \<open>req.user\<close> is
  not set: it then evaluates the window of the key \<open>ip:<address>\<close> exactly as
  \<open>slidingWindowLimiter\<close> does.\<close>

lemma rateLimiter_unauthenticated:
  "snd (rateLimiter ipLimit userLimit windowMs ip None now sw)
     = snd (slidingWindowLimiter ipLimit windowMs (''ip:'' @ ip) now sw)
   \<and> admitted (fst (rateLimiter ipLimit userLimit windowMs ip None now sw))
     = admitted (fst (slidingWindowLimiter ipLimit windowMs (''ip:'' @ ip) now sw))"
  by (simp add: rateLimiter_def slidingWindowLimiter_def Let_def)

section \<open>Rate limiter: the installed limiter\<close>



























section \<open>Cache: time-to-live of a stored entry\<close>

text \<open>\<open>longestMatch\<close> is what its name says: a configured entry whose prefix matches,
  no shorter than any other configured prefix that matches.\<close>

lemma longestMatch_None:
  "longestMatch durations url = None \<longleftrightarrow> (\<forall>(route, d) \<in> set durations. \<not> prefix route url)"
  by (induction durations url rule: longestMatch.induct) (auto split: option.splits if_splits)

lemma longestMatch_Some:
  "longestMatch durations url = Some (route, d) \<Longrightarrow>
     (route, d) \<in> set durations \<and> prefix route url
     \<and> (\<forall>(r, d') \<in> set durations. prefix r url \<longrightarrow> length r \<le> length route)"
proof (induction durations url arbitrary: route d rule: longestMatch.induct)
  case (1 url)
  then show ?case by simp
next
  case (2 r0 d0 rest url)
  show ?case
  proof (cases "longestMatch rest url")
    case None
    with "2.prems" have "prefix r0 url" and "route = r0" and "d = d0"
      by (auto split: if_splits)
    moreover from None have "\<forall>(r, d') \<in> set rest. \<not> prefix r url"
      by (simp add: longestMatch_None)
    ultimately show ?thesis by auto
  next
    case (Some m)
    obtain r1 d1 where m: "m = (r1, d1)" by (cases m)
    from "2.IH" [of r1 d1] Some m
    have ih: "(r1, d1) \<in> set rest" "prefix r1 url"
      "\<forall>(r, d') \<in> set rest. prefix r url \<longrightarrow> length r \<le> length r1"
      by auto
    show ?thesis
    proof (cases "prefix r0 url \<and> length r1 \<le> length r0")
      case True
      with "2.prems" Some m have "route = r0" "d = d0" by auto
      with True ih show ?thesis by fastforce
    next
      case False
      with "2.prems" Some m have "route = r1" "d = d1" by auto
      with False ih show ?thesis by fastforce
    qed
  qed
qed

text \<open>No two of the configured prefixes match the same URL.\<close>

lemma products_not_stats: "prefix ''/products'' url \<Longrightarrow> \<not> prefix ''/stats'' url"
  by (auto elim!: prefixE)

lemma products_not_users: "prefix ''/products'' url \<Longrightarrow> \<not> prefix ''/users'' url"
  by (auto elim!: prefixE)

lemma stats_not_users: "prefix ''/stats'' url \<Longrightarrow> \<not> prefix ''/users'' url"
  by (auto elim!: prefixE)

lemma durationFor_longest:
  "durationFor CACHE_DURATIONS url = ttlLongestPrefix CACHE_DURATIONS (5 * 60 * 1000) url"
proof -
  consider (p) "prefix ''/products'' url" | (s) "prefix ''/stats'' url"
    | (u) "prefix ''/users'' url"
    | (n) "\<not> prefix ''/products'' url" "\<not> prefix ''/stats'' url" "\<not> prefix ''/users'' url"
    by blast
  then show ?thesis
  proof cases
    case p
    with products_not_stats products_not_users show ?thesis
      by (simp add: durationFor_def ttlLongestPrefix_def CACHE_DURATIONS_def)
  next
    case s
    with products_not_stats stats_not_users show ?thesis
      by (auto simp: durationFor_def ttlLongestPrefix_def CACHE_DURATIONS_def)
  next
    case u
    with products_not_users stats_not_users show ?thesis
      by (auto simp: durationFor_def ttlLongestPrefix_def CACHE_DURATIONS_def)
  next
    case n
    then show ?thesis
      by (simp add: durationFor_def ttlLongestPrefix_def CACHE_DURATIONS_def)
  qed
qed


text \<open>The code takes the first configured prefix that matches, in the order of the
  table. That is the longest one for the table of the source, where at most one prefix
  matches; for a table with nested prefixes it need not be.\<close>

lemma durationFor_first_match:
  "durationFor [(''/a'', 1000), (''/ab'', 2000)] ''/abc'' = 1000
   \<and> ttlLongestPrefix [(''/a'', 1000), (''/ab'', 2000)] (5 * 60 * 1000) ''/abc'' = 2000"
  by (simp add: durationFor_def ttlLongestPrefix_def)

text \<open>
  Claim C8. A response is stored when its content type contains \<open>application/json\<close> and
  its body parses. The entry then stored under the request URL has \<open>cachedAt = now\<close> and
  \<open>expiresAt = now + ttl\<close>, where \<open>ttl\<close> is the duration of the longest configured prefix
  that matches the URL and the default of 300000 ms when no configured prefix matches:
  300000 for \<open>/products\<close>, 600000 for \<open>/stats\<close>, 120000 for \<open>/users\<close>. A response
  that is not stored leaves the cache as it was.
\<close>

theorem C8_expiresAt:
  "(sublist ''application/json'' ct \<longrightarrow>
      map_of (cache (cacheSend url now (Some ct) (Some d) st)) url = Some d
      \<and> map_of (cacheMetadata (cacheSend url now (Some ct) (Some d) st)) url
          = Some \<lparr>cachedAt = now,
                  expiresAt = now + ttlLongestPrefix CACHE_DURATIONS (5 * 60 * 1000) url\<rparr>)
   \<and> ttlLongestPrefix CACHE_DURATIONS (5 * 60 * 1000) url
       = (if prefix ''/products'' url then 300000
          else if prefix ''/stats'' url then 600000
          else if prefix ''/users'' url then 120000
          else 300000)
   \<and> cacheSend url now None body st = st
   \<and> cacheSend url now contentType None st = st
   \<and> (\<not> sublist ''application/json'' ct \<longrightarrow> cacheSend url now (Some ct) body st = st)"
proof (intro conjI impI)
  assume "sublist ''application/json'' ct"
  then have stored: "cacheSend url now (Some ct) (Some d) st
      = st\<lparr>cache := AList.update url d (cache st),
           cacheMetadata := AList.update url
             \<lparr>cachedAt = now,
                expiresAt = now + ttlLongestPrefix CACHE_DURATIONS (5 * 60 * 1000) url\<rparr>
             (cacheMetadata st)\<rparr>"
    by (simp add: cacheSend_def durationFor_longest)
  show "map_of (cache (cacheSend url now (Some ct) (Some d) st)) url = Some d"
    by (simp add: stored update_conv')
  show "map_of (cacheMetadata (cacheSend url now (Some ct) (Some d) st)) url
          = Some \<lparr>cachedAt = now,
                  expiresAt = now + ttlLongestPrefix CACHE_DURATIONS (5 * 60 * 1000) url\<rparr>"
    by (simp add: stored update_conv')
next
  show "ttlLongestPrefix CACHE_DURATIONS (5 * 60 * 1000) url
       = (if prefix ''/products'' url then 300000
          else if prefix ''/stats'' url then 600000
          else if prefix ''/users'' url then 120000
          else 300000)"
    using products_not_stats [of url] products_not_users [of url] stats_not_users [of url]
    by (auto simp: ttlLongestPrefix_def CACHE_DURATIONS_def)
next
  show "cacheSend url now None body st = st"
    by (simp add: cacheSend_def)
  show "cacheSend url now contentType None st = st"
    by (simp add: cacheSend_def split: option.splits)
next
  assume "\<not> sublist ''application/json'' ct"
  then show "cacheSend url now (Some ct) body st = st"
    by (simp add: cacheSend_def)
qed

theorem C8_witness:
  "sublist ''application/json'' ''application/json; charset=utf-8''
   \<and> map_of (cacheMetadata (cacheSend ''/products/1'' 0 (Some ''application/json; charset=utf-8'')
        (Some (JObj [(''id'', JNum 1)])) cacheStore_empty)) ''/products/1''
       = Some \<lparr>cachedAt = 0, expiresAt = 300000\<rparr>
   \<and> \<not> sublist ''application/json'' ''text/html''
   \<and> cacheSend ''/products/1'' 0 (Some ''text/html'') (Some (JStr ''x'')) cacheStore_empty
       = cacheStore_empty"
proof -
  note t = C8_expiresAt [where ct = "''application/json; charset=utf-8''" and url = "''/products/1''"
      and now = 0 and d = "JObj [(''id'', JNum 1)]" and st = cacheStore_empty]
  note u = C8_expiresAt [where ct = "''text/html''" and url = "''/products/1''"
      and now = 0 and body = "Some (JStr ''x'')" and st = cacheStore_empty]
  have a: "sublist ''application/json'' ''application/json; charset=utf-8''"
    by (rule prefix_imp_sublist) simp
  have b: "\<not> sublist ''application/json'' ''text/html''"
    by code_simp
  from t a have "map_of (cacheMetadata (cacheSend ''/products/1'' 0
        (Some ''application/json; charset=utf-8'') (Some (JObj [(''id'', JNum 1)]))
        cacheStore_empty)) ''/products/1''
       = Some \<lparr>cachedAt = 0, expiresAt = 0 + (if prefix ''/products'' ''/products/1'' then 300000
          else if prefix ''/stats'' ''/products/1'' then 600000
          else if prefix ''/users'' ''/products/1'' then 120000
          else 300000)\<rparr>"
    by simp
  then have c: "map_of (cacheMetadata (cacheSend ''/products/1'' 0
        (Some ''application/json; charset=utf-8'') (Some (JObj [(''id'', JNum 1)]))
        cacheStore_empty)) ''/products/1'' = Some \<lparr>cachedAt = 0, expiresAt = 300000\<rparr>"
    by simp
  from u b have d: "cacheSend ''/products/1'' 0 (Some ''text/html'') (Some (JStr ''x''))
      cacheStore_empty = cacheStore_empty"
    by blast
  from a b c d show ?thesis by blast
qed

section \<open>Cache: invalidation\<close>

lemma fold_deleteEntry_cache:
  "cache (fold (\<lambda>key st1. if P key then deleteEntry key st1 else st1) keys st)
     = filter (\<lambda>e. \<not> (fst e \<in> set keys \<and> P (fst e))) (cache st)"
proof (induction keys arbitrary: st)
  case Nil
  show ?case by simp
next
  case (Cons a keys)
  show ?case
    by (auto simp: Cons.IH deleteEntry_def AList.delete_eq intro!: filter_cong)
qed

lemma fold_deleteEntry_cacheMetadata:
  "cacheMetadata (fold (\<lambda>key st1. if P key then deleteEntry key st1 else st1) keys st)
     = filter (\<lambda>e. \<not> (fst e \<in> set keys \<and> P (fst e))) (cacheMetadata st)"
proof (induction keys arbitrary: st)
  case Nil
  show ?case by simp
next
  case (Cons a keys)
  show ?case
    by (auto simp: Cons.IH deleteEntry_def AList.delete_eq intro!: filter_cong)
qed

text \<open>The cache after \<open>invalidateCache\<close> with a string pattern: the entries whose key
  does not contain the pattern, in their old order. (Every key contains the empty
  pattern, for which the code clears the cache.)\<close>

lemma invalidateCache_cache:
  "cache (invalidateCache (Some p) st) = filter (\<lambda>e. \<not> sublist p (fst e)) (cache st)"
proof (cases "p = []")
  case True
  then show ?thesis by (simp add: invalidateCache_def)
next
  case False
  have "filter (\<lambda>e. \<not> (fst e \<in> set (map fst (cache st)) \<and> sublist p (fst e))) (cache st)
        = filter (\<lambda>e. \<not> sublist p (fst e)) (cache st)"
    by (rule filter_cong) auto
  with False show ?thesis
    by (simp add: invalidateCache_def fold_deleteEntry_cache del: set_map)
qed

lemma invalidateCache_cacheMetadata:
  assumes "fst ` set (cacheMetadata st) \<subseteq> fst ` set (cache st)"
  shows "cacheMetadata (invalidateCache (Some p) st)
           = filter (\<lambda>e. \<not> sublist p (fst e)) (cacheMetadata st)"
proof (cases "p = []")
  case True
  then show ?thesis by (simp add: invalidateCache_def)
next
  case False
  have "filter (\<lambda>e. \<not> (fst e \<in> set (map fst (cache st)) \<and> sublist p (fst e))) (cacheMetadata st)
        = filter (\<lambda>e. \<not> sublist p (fst e)) (cacheMetadata st)"
    using assms by (intro filter_cong) auto
  with False show ?thesis
    by (simp add: invalidateCache_def fold_deleteEntry_cacheMetadata del: set_map)
qed

lemma map_of_filter_not:
  "map_of (filter (\<lambda>e. \<not> Q (fst e)) xs) k = (if Q k then None else map_of xs k)"
  by (induction xs) auto

text \<open>The base route is the part of the path before its second slash, and so a prefix
  of the path.\<close>

lemma split_not_Nil: "split sep s \<noteq> []"
  by (induction s) (auto split: list.splits)

lemma join_Cons_Cons: "join sep ((c # w) # ws) = c # join sep (w # ws)"
  by (cases ws) simp_all

lemma join_split: "join [sep] (split sep s) = s"
proof (induction s)
  case Nil
  show ?case by simp
next
  case (Cons c cs)
  obtain w ws where ws: "split sep cs = w # ws"
    using split_not_Nil [of sep cs] by (cases "split sep cs") auto
  with Cons.IH show ?case
    by (simp add: join_Cons_Cons del: join.simps) simp
qed

lemma prefix_join_take: "prefix (join sep (take n ws)) (join sep ws)"
proof (induction ws arbitrary: n)
  case Nil
  show ?case by simp
next
  case (Cons w ws)
  show ?case
  proof (cases n)
    case 0
    then show ?thesis by simp
  next
    case (Suc m)
    show ?thesis
    proof (cases "take m ws")
      case Nil
      then show ?thesis using Suc by (cases ws) simp_all
    next
      case (Cons v vs)
      then obtain u us where "ws = u # us" by (cases ws) auto
      with Cons.IH [of m] Cons Suc show ?thesis by simp
    qed
  qed
qed

lemma baseRoute_prefix: "prefix (baseRoute path) path"
  using prefix_join_take [of "''/''" 2 "split CHR ''/'' path"]
  by (simp add: baseRoute_def join_split)

lemma baseRoute_examples:
  "baseRoute ''/users/42'' = ''/users'' \<and> baseRoute ''/users'' = ''/users''
   \<and> baseRoute ''/products/7/reviews'' = ''/products'' \<and> baseRoute ''/'' = ''/''"
  by (simp add: baseRoute_def)


text \<open>Both maps are written and deleted under the same keys, so every key of
  \<open>cacheMetadata\<close> is a key of \<open>cache\<close>: the empty cache has the property and the
  operations keep it.\<close>

lemma keys_cacheSend:
  "fst ` set (cacheMetadata st) \<subseteq> fst ` set (cache st) \<Longrightarrow>
   fst ` set (cacheMetadata (cacheSend url now contentType body st))
     \<subseteq> fst ` set (cache (cacheSend url now contentType body st))"
  by (auto simp: cacheSend_def dom_update split: option.splits)

lemma keys_deleteEntry:
  "fst ` set (cacheMetadata st) \<subseteq> fst ` set (cache st) \<Longrightarrow>
   fst ` set (cacheMetadata (deleteEntry key st)) \<subseteq> fst ` set (cache (deleteEntry key st))"
proof -
  have keys: "fst ` set (AList.delete key al) = fst ` set al - {key}" for al :: "(string \<times> 'v) list"
    using delete_keys [of key al] set_map [of fst "AList.delete key al"] by auto
  assume "fst ` set (cacheMetadata st) \<subseteq> fst ` set (cache st)"
  then show ?thesis
    by (auto simp: deleteEntry_def keys)
qed

lemma keys_cacheMiddleware:
  "fst ` set (cacheMetadata st) \<subseteq> fst ` set (cache st) \<Longrightarrow>
   fst ` set (cacheMetadata (snd (cacheMiddleware httpMethod url now st)))
     \<subseteq> fst ` set (cache (snd (cacheMiddleware httpMethod url now st)))"
  using keys_deleteEntry [of st url]
  by (simp add: cacheMiddleware_def split: option.splits)

text \<open>The base route of a path that begins with a slash is the slash and the first
  segment: the characters up to the second slash, or all of them when there is none.\<close>

lemma split_no_sep: "sep \<notin> set s \<Longrightarrow> split sep s = [s]"
  by (induction s) auto

lemma split_append_sep: "sep \<notin> set s \<Longrightarrow> split sep (s @ sep # rest) = s # split sep rest"
  by (induction s) auto

lemma baseRoute_first_segment:
  assumes "CHR ''/'' \<notin> set seg"
  shows "baseRoute (''/'' @ seg) = ''/'' @ seg
         \<and> baseRoute (''/'' @ seg @ ''/'' @ rest) = ''/'' @ seg"
proof
  show "baseRoute (''/'' @ seg) = ''/'' @ seg"
    using assms by (simp add: baseRoute_def split_no_sep)
  obtain w ws where "split CHR ''/'' rest = w # ws"
    using split_not_Nil [of "CHR ''/''" rest] by (cases "split CHR ''/'' rest") auto
  then show "baseRoute (''/'' @ seg @ ''/'' @ rest) = ''/'' @ seg"
    using assms by (simp add: baseRoute_def split_append_sep)
qed

text \<open>
  Claim C9. A request with method POST, PUT, DELETE or PATCH invalidates by the base
  route of its path, which for a path \<open>/seg\<close> or \<open>/seg/rest\<close> (no slash in \<open>seg\<close>) is the
  first segment \<open>/seg\<close>. Every cache entry whose key starts with that first segment is
  removed: afterwards the key is in neither map, a cacheable GET for it is a miss, and
  the cache holds exactly the old entries whose key does not contain \<open>/seg\<close>. A request
  with another method leaves the cache as it was. \<open>invalidateCache\<close> without a pattern
  empties both maps; with a pattern it removes exactly the entries whose key contains
  the pattern and keeps the others as they were.
\<close>

theorem C9_invalidation:
  "(CHR ''/'' \<notin> set seg \<longrightarrow>
      baseRoute (''/'' @ seg) = ''/'' @ seg
      \<and> baseRoute (''/'' @ seg @ ''/'' @ rest) = ''/'' @ seg)
   \<and> (httpMethod \<in> set [''POST'', ''PUT'', ''DELETE'', ''PATCH'']
        \<and> CHR ''/'' \<notin> set seg \<and> (path = ''/'' @ seg \<or> path = ''/'' @ seg @ ''/'' @ rest)
        \<and> prefix (''/'' @ seg) key \<longrightarrow>
      map_of (cache (cacheInvalidationMiddleware httpMethod path st)) key = None
      \<and> (fst ` set (cacheMetadata st) \<subseteq> fst ` set (cache st) \<longrightarrow>
           map_of (cacheMetadata (cacheInvalidationMiddleware httpMethod path st)) key = None)
      \<and> (list_ex (\<lambda>route. prefix route key) CACHEABLE_ROUTES \<longrightarrow>
           fst (cacheMiddleware ''GET'' key now (cacheInvalidationMiddleware httpMethod path st))
             = CacheMiss)
      \<and> cache (cacheInvalidationMiddleware httpMethod path st)
          = filter (\<lambda>e. \<not> sublist (''/'' @ seg) (fst e)) (cache st))
   \<and> (httpMethod \<in> set [''POST'', ''PUT'', ''DELETE'', ''PATCH''] \<and> prefix (baseRoute path) key \<longrightarrow>
      map_of (cache (cacheInvalidationMiddleware httpMethod path st)) key = None
      \<and> (fst ` set (cacheMetadata st) \<subseteq> fst ` set (cache st) \<longrightarrow>
           map_of (cacheMetadata (cacheInvalidationMiddleware httpMethod path st)) key = None)
      \<and> (list_ex (\<lambda>route. prefix route key) CACHEABLE_ROUTES \<longrightarrow>
           fst (cacheMiddleware ''GET'' key now (cacheInvalidationMiddleware httpMethod path st))
             = CacheMiss))
   \<and> (httpMethod \<notin> set [''POST'', ''PUT'', ''DELETE'', ''PATCH''] \<longrightarrow>
        cacheInvalidationMiddleware httpMethod path st = st)
   \<and> prefix (baseRoute path) path
   \<and> invalidateCache None st = \<lparr>cache = [], cacheMetadata = []\<rparr>
   \<and> cache (invalidateCache (Some p) st) = filter (\<lambda>e. \<not> sublist p (fst e)) (cache st)
   \<and> map_of (cache (invalidateCache (Some p) st)) k
       = (if sublist p k then None else map_of (cache st) k)
   \<and> (fst ` set (cacheMetadata st) \<subseteq> fst ` set (cache st) \<longrightarrow>
        cacheMetadata (invalidateCache (Some p) st)
          = filter (\<lambda>e. \<not> sublist p (fst e)) (cacheMetadata st))"
proof -
  let ?st' = "cacheInvalidationMiddleware httpMethod path st"
  have general: "map_of (cache ?st') key = None
      \<and> (fst ` set (cacheMetadata st) \<subseteq> fst ` set (cache st) \<longrightarrow>
           map_of (cacheMetadata ?st') key = None)
      \<and> (list_ex (\<lambda>route. prefix route key) CACHEABLE_ROUTES \<longrightarrow>
           fst (cacheMiddleware ''GET'' key now ?st') = CacheMiss)"
    if w: "httpMethod \<in> set [''POST'', ''PUT'', ''DELETE'', ''PATCH'']"
      and pre: "prefix (baseRoute path) key"
  proof (intro conjI impI)
    from w have st': "?st' = invalidateCache (Some (baseRoute path)) st"
      by (simp add: cacheInvalidationMiddleware_def)
    from pre have sub: "sublist (baseRoute path) key" by simp
    show gone: "map_of (cache ?st') key = None"
      using sub by (simp add: st' invalidateCache_cache map_of_filter_not)
    show "map_of (cacheMetadata ?st') key = None"
      if "fst ` set (cacheMetadata st) \<subseteq> fst ` set (cache st)"
      using sub by (simp add: st' invalidateCache_cacheMetadata [OF that] map_of_filter_not)
    show "fst (cacheMiddleware ''GET'' key now ?st') = CacheMiss"
      if "list_ex (\<lambda>route. prefix route key) CACHEABLE_ROUTES"
      using that gone by (simp add: cacheMiddleware_def)
  qed
  have segment: "baseRoute path = ''/'' @ seg"
    if "CHR ''/'' \<notin> set seg" and "path = ''/'' @ seg \<or> path = ''/'' @ seg @ ''/'' @ rest"
    using that baseRoute_first_segment [of seg rest] by auto
  have first: "map_of (cache ?st') key = None
      \<and> (fst ` set (cacheMetadata st) \<subseteq> fst ` set (cache st) \<longrightarrow>
           map_of (cacheMetadata ?st') key = None)
      \<and> (list_ex (\<lambda>route. prefix route key) CACHEABLE_ROUTES \<longrightarrow>
           fst (cacheMiddleware ''GET'' key now ?st') = CacheMiss)
      \<and> cache ?st' = filter (\<lambda>e. \<not> sublist (''/'' @ seg) (fst e)) (cache st)"
    if h: "httpMethod \<in> set [''POST'', ''PUT'', ''DELETE'', ''PATCH'']
        \<and> CHR ''/'' \<notin> set seg \<and> (path = ''/'' @ seg \<or> path = ''/'' @ seg @ ''/'' @ rest)
        \<and> prefix (''/'' @ seg) key"
  proof -
    from h have b: "baseRoute path = ''/'' @ seg" by (intro segment) simp_all
    from h have w: "httpMethod \<in> set [''POST'', ''PUT'', ''DELETE'', ''PATCH'']" by simp
    from h b have pre: "prefix (baseRoute path) key" by simp
    from w b have "cache ?st' = filter (\<lambda>e. \<not> sublist (''/'' @ seg) (fst e)) (cache st)"
      by (simp only: cacheInvalidationMiddleware_def if_True invalidateCache_cache)
    with general [OF w pre] show ?thesis by blast
  qed
  have other: "?st' = st" if "httpMethod \<notin> set [''POST'', ''PUT'', ''DELETE'', ''PATCH'']"
    using that by (simp only: cacheInvalidationMiddleware_def if_False)
  have clear: "invalidateCache None st = \<lparr>cache = [], cacheMetadata = []\<rparr>"
    by (simp add: invalidateCache_def)
  have look: "map_of (cache (invalidateCache (Some p) st)) k
       = (if sublist p k then None else map_of (cache st) k)"
    by (simp add: invalidateCache_cache map_of_filter_not)
  from baseRoute_first_segment [of seg rest] first general other baseRoute_prefix [of path]
    clear invalidateCache_cache [of p st] look invalidateCache_cacheMetadata [of st p]
  show ?thesis by blast
qed


theorem C9_witness:
  "''PUT'' \<in> set [''POST'', ''PUT'', ''DELETE'', ''PATCH'']
   \<and> CHR ''/'' \<notin> set ''users''
   \<and> ''/users/42'' = ''/'' @ ''users'' @ ''/'' @ ''42''
   \<and> baseRoute ''/users/42'' = ''/users''
   \<and> prefix (''/'' @ ''users'') ''/users/43''
   \<and> list_ex (\<lambda>route. prefix route ''/users/43'') CACHEABLE_ROUTES
   \<and> fst (cacheMiddleware ''GET'' ''/users/43'' 1000
         \<lparr>cache = [(''/users'', JArr []), (''/users/43'', JObj []), (''/users/42'', JObj []),
                   (''/products'', JArr [])],
          cacheMetadata = [(''/users'', \<lparr>cachedAt = 0, expiresAt = 120000\<rparr>),
                           (''/users/43'', \<lparr>cachedAt = 0, expiresAt = 120000\<rparr>),
                           (''/users/42'', \<lparr>cachedAt = 0, expiresAt = 120000\<rparr>),
                           (''/products'', \<lparr>cachedAt = 0, expiresAt = 300000\<rparr>)]\<rparr>)
       = CacheHit (JObj []) 1
   \<and> fst (cacheMiddleware ''GET'' ''/users/43'' 1000
         (cacheInvalidationMiddleware ''PUT'' ''/users/42''
           \<lparr>cache = [(''/users'', JArr []), (''/users/43'', JObj []), (''/users/42'', JObj []),
                     (''/products'', JArr [])],
            cacheMetadata = [(''/users'', \<lparr>cachedAt = 0, expiresAt = 120000\<rparr>),
                             (''/users/43'', \<lparr>cachedAt = 0, expiresAt = 120000\<rparr>),
                             (''/users/42'', \<lparr>cachedAt = 0, expiresAt = 120000\<rparr>),
                             (''/products'', \<lparr>cachedAt = 0, expiresAt = 300000\<rparr>)]\<rparr>))
       = CacheMiss
   \<and> cacheInvalidationMiddleware ''PUT'' ''/users/42''
         \<lparr>cache = [(''/users'', JArr []), (''/users/43'', JObj []), (''/users/42'', JObj []),
                   (''/products'', JArr [])],
          cacheMetadata = [(''/users'', \<lparr>cachedAt = 0, expiresAt = 120000\<rparr>),
                           (''/users/43'', \<lparr>cachedAt = 0, expiresAt = 120000\<rparr>),
                           (''/users/42'', \<lparr>cachedAt = 0, expiresAt = 120000\<rparr>),
                           (''/products'', \<lparr>cachedAt = 0, expiresAt = 300000\<rparr>)]\<rparr>
       = \<lparr>cache = [(''/products'', JArr [])],
          cacheMetadata = [(''/products'', \<lparr>cachedAt = 0, expiresAt = 300000\<rparr>)]\<rparr>
   \<and> ''GET'' \<notin> set [''POST'', ''PUT'', ''DELETE'', ''PATCH'']
   \<and> cacheInvalidationMiddleware ''GET'' ''/users/42''
         \<lparr>cache = [(''/users'', JArr [])],
          cacheMetadata = [(''/users'', \<lparr>cachedAt = 0, expiresAt = 120000\<rparr>)]\<rparr>
       = \<lparr>cache = [(''/users'', JArr [])],
          cacheMetadata = [(''/users'', \<lparr>cachedAt = 0, expiresAt = 120000\<rparr>)]\<rparr>"
proof -
  let ?st = "\<lparr>cache = [(''/users'', JArr []), (''/users/43'', JObj []), (''/users/42'', JObj []),
                   (''/products'', JArr [])],
          cacheMetadata = [(''/users'', \<lparr>cachedAt = 0, expiresAt = 120000\<rparr>),
                           (''/users/43'', \<lparr>cachedAt = 0, expiresAt = 120000\<rparr>),
                           (''/users/42'', \<lparr>cachedAt = 0, expiresAt = 120000\<rparr>),
                           (''/products'', \<lparr>cachedAt = 0, expiresAt = 300000\<rparr>)]\<rparr>"
  let ?st1 = "\<lparr>cache = [(''/users'', JArr [])],
          cacheMetadata = [(''/users'', \<lparr>cachedAt = 0, expiresAt = 120000\<rparr>)]\<rparr>"
  note t = C9_invalidation [where httpMethod = "''PUT''" and path = "''/users/42''"
      and seg = "''users''" and rest = "''42''" and key = "''/users/43''" and st = ?st
      and now = 1000]
  note u = C9_invalidation [where httpMethod = "''GET''" and path = "''/users/42''" and st = ?st1]
  have a: "''PUT'' \<in> set [''POST'', ''PUT'', ''DELETE'', ''PATCH'']" by simp
  have b: "CHR ''/'' \<notin> set ''users''" by simp
  have c: "''/users/42'' = ''/'' @ ''users'' @ ''/'' @ ''42''" by simp
  from t b have d: "baseRoute ''/users/42'' = ''/users''" by simp
  have e: "prefix (''/'' @ ''users'') ''/users/43''" by simp
  have f: "list_ex (\<lambda>route. prefix route ''/users/43'') CACHEABLE_ROUTES"
    by (simp add: CACHEABLE_ROUTES_def)
  have g: "fst (cacheMiddleware ''GET'' ''/users/43'' 1000 ?st) = CacheHit (JObj []) 1"
    by (simp add: cacheMiddleware_def CACHEABLE_ROUTES_def)
  from t a b c e f have h: "fst (cacheMiddleware ''GET'' ''/users/43'' 1000
      (cacheInvalidationMiddleware ''PUT'' ''/users/42'' ?st)) = CacheMiss"
    by blast
  have subs: "sublist ''/users'' ''/users''" "sublist ''/users'' ''/users/43''"
    "sublist ''/users'' ''/users/42''" "\<not> sublist ''/users'' ''/products''"
    by code_simp+
  from t a b c e have "cache (cacheInvalidationMiddleware ''PUT'' ''/users/42'' ?st)
      = filter (\<lambda>e. \<not> sublist (''/'' @ ''users'') (fst e)) (cache ?st)"
    by blast
  with subs have i1: "cache (cacheInvalidationMiddleware ''PUT'' ''/users/42'' ?st)
      = [(''/products'', JArr [])]"
    by simp
  have i2: "cacheMetadata (cacheInvalidationMiddleware ''PUT'' ''/users/42'' ?st)
      = [(''/products'', \<lparr>cachedAt = 0, expiresAt = 300000\<rparr>)]"
    using subs d
    by (simp add: cacheInvalidationMiddleware_def invalidateCache_def deleteEntry_def)
  from i1 i2 have i: "cacheInvalidationMiddleware ''PUT'' ''/users/42'' ?st
       = \<lparr>cache = [(''/products'', JArr [])],
          cacheMetadata = [(''/products'', \<lparr>cachedAt = 0, expiresAt = 300000\<rparr>)]\<rparr>"
    by (cases "cacheInvalidationMiddleware ''PUT'' ''/users/42'' ?st") simp
  have j: "''GET'' \<notin> set [''POST'', ''PUT'', ''DELETE'', ''PATCH'']" by simp
  from u j have k: "cacheInvalidationMiddleware ''GET'' ''/users/42'' ?st1 = ?st1" by blast
  from a b c d e f g h i j k show ?thesis by blast
qed

section \<open>Cache: lookup\<close>

text \<open>What the lookup guarantees for every state of the cache: a hit returns the payload
  stored under the URL, and only while the current time is before the entry's
  \<open>expiresAt\<close>; it changes nothing.\<close>

lemma cacheMiddleware_hit:
  assumes "cacheMiddleware httpMethod url now st = (CacheHit d age, st')"
  shows "httpMethod = ''GET'' \<and> map_of (cache st) url = Some d \<and> truthy d
         \<and> (\<exists>m. map_of (cacheMetadata st) url = Some m \<and> now < expiresAt m
                \<and> age = (now - cachedAt m) div 1000)
         \<and> st' = st"
  using assms by (auto simp: cacheMiddleware_def split: if_splits option.splits)

text \<open>An entry with a truthy payload that has expired, or has no metadata, is removed
  from both maps by the lookup.\<close>

lemma cacheMiddleware_evicts:
  assumes "list_ex (\<lambda>route. prefix route url) CACHEABLE_ROUTES"
    and "map_of (cache st) url = Some d" and "truthy d"
    and "\<forall>m. map_of (cacheMetadata st) url = Some m \<longrightarrow> expiresAt m \<le> now"
  shows "cacheMiddleware ''GET'' url now st = (CacheMiss, deleteEntry url st)
         \<and> map_of (cache (deleteEntry url st)) url = None
         \<and> map_of (cacheMetadata (deleteEntry url st)) url = None"
  using assms
  by (auto simp: cacheMiddleware_def deleteEntry_def delete_conv' split: option.splits)

text \<open>
  Claim C4. The claim: an entry whose \<open>expiresAt\<close> has passed is removed from the cache
  at the lookup. The code for the URL \<open>/stats\<close> whose JSON body was the number 0: the
  wrapper stores the payload 0 at time 0 with \<open>expiresAt = 600000\<close>; the lookup at time
  700000 tests \<open>if (cachedData)\<close>, which is false for 0, so it is a miss that skips the
  expiry branch and leaves the expired entry in both maps.
\<close>

theorem C4_expired_falsy_entry_stays:
  "cacheSend ''/stats'' 0 (Some ''application/json; charset=utf-8'') (Some (JNum 0)) cacheStore_empty
     = \<lparr>cache = [(''/stats'', JNum 0)],
        cacheMetadata = [(''/stats'', \<lparr>cachedAt = 0, expiresAt = 600000\<rparr>)]\<rparr>
   \<and> cacheMiddleware ''GET'' ''/stats'' 700000
       \<lparr>cache = [(''/stats'', JNum 0)],
        cacheMetadata = [(''/stats'', \<lparr>cachedAt = 0, expiresAt = 600000\<rparr>)]\<rparr>
     = (CacheMiss,
        \<lparr>cache = [(''/stats'', JNum 0)],
         cacheMetadata = [(''/stats'', \<lparr>cachedAt = 0, expiresAt = 600000\<rparr>)]\<rparr>)"
proof -
  have "sublist ''application/json'' ''application/json; charset=utf-8''"
    by (rule prefix_imp_sublist) simp
  then show ?thesis
    by (simp add: cacheSend_def cacheMiddleware_def cacheStore_empty_def CACHEABLE_ROUTES_def
        CACHE_DURATIONS_def durationFor_def)
qed

end
